theory Spec2Isabelle
  imports Complex_Main
begin

section \<open>A toy LWE-style bit encryption scheme (main.py)\<close>

text \<open>
  The program has five functions: \<open>setup\<close>, \<open>secret_key_gen\<close>, \<open>public_key_gen\<close>,
  \<open>encrypt\<close> and \<open>decrypt\<close>. Each is embedded below as a HOL function of the same name
  (\<open>setup\<close> as \<open>setup'\<close>, the plain name being reserved).

  \<^item> Parameters are the Python tuple \<open>(q, d, n, N, chi)\<close> of unbounded integers.
  \<^item> A one-dimensional array is an \<open>int list\<close>; a two-dimensional array is a
    \<open>matrix\<close>: its rows together with the number of columns (an array of shape
    \<open>0 \<times> k\<close> still knows \<open>k\<close>).
  \<^item> Array entries are signed 64-bit integers (the array library's default integer type,
    which \<open>randint\<close> and \<open>np.array\<close> of small Python integers produce): every
    elementwise operation, inner product and sum on arrays wraps around modulo
    \<open>2 ^ 64\<close>, written out below as \<open>wrap64\<close>. A Python integer that meets an array
    in an operation (the modulus \<open>q\<close>) must itself fit 64 bits, or the operation raises.
  \<^item> Every exception is a value \<open>Inl err\<close> of the result type \<open>error + 'a\<close>.
    Running out of memory is not modelled.
  \<^item> Randomness is an explicit argument: a function that calls the random number
    generator takes the drawn values as an extra argument, and \<open>randint_outcome\<close> says
    which values a returning call can draw. A statement "for every random draw"
    quantifies over these arguments.
\<close>

subsection \<open>Errors, parameters, arrays\<close>

datatype error = ValueError | IndexError | OverflowError | AssertionError string

type_synonym params = "int \<times> int \<times> int \<times> int \<times> int"

record matrix =
  ncols :: nat
  rows :: "int list list"

text \<open>The two assertion messages of the source, under the names the specification uses.\<close>

definition InvalidMessage :: error where
  "InvalidMessage = AssertionError ''Message must be either 0 or 1''"

definition CorrectnessViolation :: error where
  "CorrectnessViolation = AssertionError ''Public key generation failed''"

subsection \<open>Signed 64-bit arithmetic\<close>

definition in64 :: "int \<Rightarrow> bool" where
  "in64 x \<longleftrightarrow> - (2 ^ 63) \<le> x \<and> x < 2 ^ 63"

definition wrap64 :: "int \<Rightarrow> int" where
  "wrap64 x = (x + 2 ^ 63) mod 2 ^ 64 - 2 ^ 63"

definition add64 :: "int \<Rightarrow> int \<Rightarrow> int" where
  "add64 a b = wrap64 (a + b)"

definition mul64 :: "int \<Rightarrow> int \<Rightarrow> int" where
  "mul64 a b = wrap64 (a * b)"

definition neg64 :: "int \<Rightarrow> int" where
  "neg64 a = wrap64 (- a)"

subsection \<open>The library calls the program uses\<close>

text \<open>
  \<open>x % q\<close> on 64-bit integers, for a modulus that fits 64 bits: the result takes the
  sign of \<open>q\<close>, and a zero modulus gives 0 (with a warning, not an exception).
\<close>

definition np_mod :: "int \<Rightarrow> int \<Rightarrow> int" where
  "np_mod x q = (if q = 0 then 0 else x mod q)"

text \<open>
  \<open>np.random.randint(low, high, size)\<close>, with the drawn values as the last argument.
  A size of zero returns the empty array before anything else is looked at. Otherwise the
  call raises for a negative size, for a size whose 8-byte entries exceed the largest
  array, for bounds outside the 64-bit range (\<open>high\<close> is exclusive) and for an empty
  range.
\<close>

definition randint :: "int \<Rightarrow> int \<Rightarrow> int \<Rightarrow> int list \<Rightarrow> error + int list" where
  "randint low high size' draw =
     (if size' = 0 then Inr []
      else if size' < 0 \<or> 2 ^ 60 \<le> size' then Inl ValueError
      else if low < - (2 ^ 63) \<or> 2 ^ 63 < high \<or> high \<le> low then Inl ValueError
      else Inr draw)"

text \<open>
  The values a call \<open>randint(low, high, size)\<close> can draw: the call returns them, there
  are \<open>size\<close> of them, each in \<open>[low, high)\<close>.
\<close>

definition randint_outcome :: "int \<Rightarrow> int \<Rightarrow> int \<Rightarrow> int list \<Rightarrow> bool" where
  "randint_outcome low high size' draw \<longleftrightarrow>
     randint low high size' draw = Inr draw \<and>
     int (length draw) = size' \<and> list_all (\<lambda>x. low \<le> x \<and> x < high) draw"

text \<open>
  \<open>random.getrandbits(k)\<close>, with the drawn value as the last argument: \<open>k\<close> is
  converted to a C \<open>int\<close> (an \<open>OverflowError\<close> outside 32 bits), and a negative
  \<open>k\<close> raises.
\<close>

definition getrandbits :: "int \<Rightarrow> int \<Rightarrow> error + int" where
  "getrandbits k draw =
     (if k < - (2 ^ 31) \<or> 2 ^ 31 \<le> k then Inl OverflowError
      else if k < 0 then Inl ValueError
      else Inr draw)"

text \<open>
  \<open>a.reshape(r, c)\<close> of a one-dimensional array: row \<open>i\<close> holds the entries
  \<open>i * c, \<dots>, i * c + c - 1\<close> of the flat array. A negative dimension, a dimension
  beyond the 64-bit range or a size that does not fit raises.
\<close>

definition chunk :: "nat \<Rightarrow> int list \<Rightarrow> nat \<Rightarrow> int list" where
  "chunk c flat i = take c (drop (i * c) flat)"

definition reshape :: "int list \<Rightarrow> int \<Rightarrow> int \<Rightarrow> error + matrix" where
  "reshape flat r c =
     (if r < 0 \<or> c < 0 \<or> 2 ^ 63 \<le> r \<or> 2 ^ 63 \<le> c \<or> int (length flat) \<noteq> r * c
      then Inl ValueError
      else Inr \<lparr>ncols = nat c, rows = map (chunk (nat c) flat) [0..<nat r]\<rparr>)"

text \<open>
  The inner product of two 64-bit vectors as the array library computes it: every product
  and every partial sum wraps around.
\<close>

definition dot64 :: "int list \<Rightarrow> int list \<Rightarrow> int" where
  "dot64 xs ys = foldl add64 0 (map2 mul64 xs ys)"

text \<open>\<open>np.dot(M, v)\<close> of a matrix and a vector: the shapes must agree.\<close>

definition np_dot :: "matrix \<Rightarrow> int list \<Rightarrow> error + int list" where
  "np_dot M v =
     (if ncols M \<noteq> length v then Inl ValueError
      else Inr (map (\<lambda>row. dot64 row v) (rows M)))"

text \<open>\<open>M.T\<close>: the transposed matrix.\<close>

definition matrix_T :: "matrix \<Rightarrow> matrix" where
  "matrix_T M =
     \<lparr>ncols = length (rows M),
      rows = map (\<lambda>j. map (\<lambda>row. row ! j) (rows M)) [0..<ncols M]\<rparr>"

text \<open>
  An elementwise binary operation on two one-dimensional arrays, with broadcasting:
  equal lengths combine entry by entry, an array of length one is stretched to the
  other's length, and any other pair of lengths raises.
\<close>

definition broadcast2 :: "(int \<Rightarrow> int \<Rightarrow> int) \<Rightarrow> int list \<Rightarrow> int list \<Rightarrow> error + int list" where
  "broadcast2 f xs ys =
     (if length xs = length ys then Inr (map2 f xs ys)
      else if length xs = 1 then Inr (map (f (hd xs)) ys)
      else if length ys = 1 then Inr (map (\<lambda>x. f x (hd ys)) xs)
      else Inl ValueError)"

text \<open>\<open>np.hstack((b.reshape(N, 1), M))\<close>: the column \<open>b\<close> in front of the matrix \<open>M\<close>.\<close>

definition hstack :: "int \<Rightarrow> int list \<Rightarrow> matrix \<Rightarrow> error + matrix" where
  "hstack N b M =
     (if N < 0 \<or> int (length b) \<noteq> N \<or> length (rows M) \<noteq> length b then Inl ValueError
      else Inr \<lparr>ncols = 1 + ncols M, rows = map2 (#) b (rows M)\<rparr>)"

definition matrix_map :: "(int \<Rightarrow> int) \<Rightarrow> matrix \<Rightarrow> matrix" where
  "matrix_map f M = \<lparr>ncols = ncols M, rows = map (map f) (rows M)\<rparr>"

subsection \<open>Exact arithmetic, for the statements\<close>

text \<open>
  The inner product over the integers, without wrap-around. The statements below compare
  what the program computes with it.
\<close>

definition dot :: "int list \<Rightarrow> int list \<Rightarrow> int" where
  "dot xs ys = sum_list (map2 (*) xs ys)"

subsection \<open>The five functions of the program\<close>

text \<open>
  \<open>setup\<close> draws \<open>q\<close> with \<open>getrandbits(mod_size)\<close> and then overwrites it with 10.
  \<open>N\<close> is \<open>int(math.ceil((2 * n + 1) * math.log(q, 2)))\<close>; the logarithm is taken over
  the reals here (the floating-point value differs from it by far less than the distance
  of \<open>21 * log 2 10\<close> to the nearest integer).
\<close>

definition setup' :: "int \<Rightarrow> int \<Rightarrow> int \<Rightarrow> int \<Rightarrow> error + params" where
  "setup' bit_length mod_size base_value draw_q =
     (case getrandbits mod_size draw_q of
        Inl err \<Rightarrow> Inl err
      | Inr q \<Rightarrow>
          let q = 10; d = 10; n = 10; chi = 1;
              N = \<lceil>real_of_int (2 * n + 1) * log 2 (real_of_int q)\<rceil>
          in Inr (q, d, n, N, chi))"

definition secret_key_gen :: "params \<Rightarrow> int list \<Rightarrow> error + int list" where
  "secret_key_gen params draw_sk =
     (case params of (q, d, n, N, chi) \<Rightarrow>
        (case randint 0 q (n + 1) draw_sk of
           Inl err \<Rightarrow> Inl err
         | Inr secret_key \<Rightarrow>
             if secret_key = [] then Inl IndexError
             else Inr (secret_key[0 := 1])))"

text \<open>
  In \<open>public_key_gen\<close>, \<open>2 * e\<close>, \<open>-A\<close>, the two inner products and the sum
  \<open>np.dot(A, sk[1:]) + 2 * e\<close> are 64-bit array operations. The first \<open>% q\<close> raises
  when \<open>q\<close> does not fit 64 bits; the two in the assertion come after it.
\<close>

definition public_key_gen ::
    "params \<Rightarrow> int list \<Rightarrow> int list \<Rightarrow> int list \<Rightarrow> error + matrix" where
  "public_key_gen params sk draw_A draw_e =
     (case params of (q, d, n, N, chi) \<Rightarrow>
        (case randint 0 q (N * n) draw_A of Inl err \<Rightarrow> Inl err | Inr flat \<Rightarrow>
        (case reshape flat N n of Inl err \<Rightarrow> Inl err | Inr A \<Rightarrow>
        (case randint 0 q N draw_e of Inl err \<Rightarrow> Inl err | Inr e \<Rightarrow>
        (case np_dot A (tl sk) of Inl err \<Rightarrow> Inl err | Inr As \<Rightarrow>
        (case broadcast2 add64 As (map (mul64 2) e) of Inl err \<Rightarrow> Inl err | Inr b \<Rightarrow>
        (case hstack N b (matrix_map neg64 A) of Inl err \<Rightarrow> Inl err | Inr stacked \<Rightarrow>
           if \<not> in64 q then Inl OverflowError
           else
             let public_key = matrix_map (\<lambda>x. np_mod x q) stacked in
             (case np_dot public_key sk of Inl err \<Rightarrow> Inl err | Inr check \<Rightarrow>
                if map (\<lambda>x. np_mod x q) check = map (\<lambda>x. np_mod x q) (map (mul64 2) e)
                then Inr public_key
                else Inl CorrectnessViolation))))))))"

text \<open>
  In \<open>encrypt\<close>, \<open>[0] * n\<close> is empty for a negative \<open>n\<close> and raises when \<open>n\<close> is not
  an index-sized integer; the inner products and the sum are 64-bit array operations; the
  final \<open>% q\<close> raises when \<open>q\<close> does not fit 64 bits.
\<close>

definition encrypt :: "params \<Rightarrow> matrix \<Rightarrow> int \<Rightarrow> int list \<Rightarrow> error + int list" where
  "encrypt params pk message draw_r =
     (if message \<noteq> 0 \<and> message \<noteq> 1 then Inl InvalidMessage
      else
        (case params of (q, d, n, N, chi) \<Rightarrow>
           if 2 ^ 63 \<le> n then Inl OverflowError
           else
             let message_vector = message # replicate (nat n) 0 in
             (case randint 0 2 N draw_r of Inl err \<Rightarrow> Inl err | Inr r \<Rightarrow>
             (case np_dot (matrix_T pk) r of Inl err \<Rightarrow> Inl err | Inr pr \<Rightarrow>
             (case broadcast2 add64 message_vector pr of Inl err \<Rightarrow> Inl err | Inr ciphertext \<Rightarrow>
                if \<not> in64 q then Inl OverflowError
                else Inr (map (\<lambda>x. np_mod x q) ciphertext))))))"

text \<open>
  In \<open>decrypt\<close>, the elementwise product and \<open>np.sum\<close> are 64-bit array operations, and
  \<open>% q\<close> on the 64-bit sum raises when \<open>q\<close> does not fit 64 bits.
\<close>

definition decrypt :: "params \<Rightarrow> int list \<Rightarrow> int list \<Rightarrow> error + int" where
  "decrypt params sk ciphertext =
     (case params of (q, d, n, N, chi) \<Rightarrow>
        (case broadcast2 mul64 ciphertext sk of
           Inl err \<Rightarrow> Inl err
         | Inr prods \<Rightarrow>
             if \<not> in64 q then Inl OverflowError
             else Inr (np_mod (np_mod (foldl add64 0 prods) q) 2)))"


section \<open>Properties\<close>

subsection \<open>Signed 64-bit arithmetic\<close>

lemma wrap64_id: "in64 x \<Longrightarrow> wrap64 x = x"
  by (simp add: in64_def wrap64_def)

lemma in64_wrap64 [simp]: "in64 (wrap64 x)"
proof -
  have "0 \<le> (x + 2 ^ 63) mod (2 ^ 64 :: int)" and "(x + 2 ^ 63) mod (2 ^ 64 :: int) < 2 ^ 64"
    by simp_all
  then show ?thesis by (simp add: in64_def wrap64_def)
qed

lemma mod_add_diff_cong:
  "(x mod m + y mod m - c) mod m = (x + y - c) mod (m :: int)"
proof -
  have "(x mod m + y mod m - c) mod m = ((x mod m + y mod m) mod m - c) mod m"
    by (simp add: mod_diff_left_eq)
  also have "\<dots> = ((x + y) mod m - c) mod m"
    by (simp add: mod_add_eq)
  also have "\<dots> = (x + y - c) mod m"
    by (simp add: mod_diff_left_eq)
  finally show ?thesis .
qed

lemma wrap64_add_wrap: "wrap64 (wrap64 a + wrap64 b) = wrap64 (a + b)"
proof -
  have "wrap64 a + wrap64 b + 2 ^ 63
      = (a + 2 ^ 63) mod 2 ^ 64 + (b + 2 ^ 63) mod 2 ^ 64 - 2 ^ 63"
    by (simp add: wrap64_def)
  moreover have "a + b + 2 ^ 63 = (a + 2 ^ 63) + (b + 2 ^ 63) - (2 ^ 63 :: int)"
    by simp
  ultimately have "(wrap64 a + wrap64 b + 2 ^ 63) mod 2 ^ 64 = (a + b + 2 ^ 63) mod 2 ^ 64"
    using mod_add_diff_cong [of "a + 2 ^ 63" "2 ^ 64" "b + 2 ^ 63" "2 ^ 63"] by presburger
  then show ?thesis unfolding wrap64_def [of "wrap64 a + wrap64 b"] wrap64_def [of "a + b"]
    by simp
qed

lemma foldl_add64_dot:
  "foldl add64 (wrap64 a) (map2 mul64 xs ys) = wrap64 (a + sum_list (map2 (*) xs ys))"
proof (induction xs arbitrary: a ys)
  case Nil
  then show ?case by simp
next
  case (Cons x xs)
  show ?case
  proof (cases ys)
    case Nil
    then show ?thesis by simp
  next
    case (Cons y ys')
    have "add64 (wrap64 a) (mul64 x y) = wrap64 (a + x * y)"
      by (simp add: add64_def mul64_def wrap64_add_wrap)
    then show ?thesis
      using Cons.IH [of "a + x * y" ys'] Cons by (simp add: add.assoc)
  qed
qed

lemma wrap64_0 [simp]: "wrap64 0 = 0"
  by (simp add: wrap64_def)

lemma dot64_wrap: "dot64 xs ys = wrap64 (dot xs ys)"
  using foldl_add64_dot [of 0 xs ys] by (simp add: dot64_def dot_def)

lemma dot64_exact: "in64 (dot xs ys) \<Longrightarrow> dot64 xs ys = dot xs ys"
  by (simp add: dot64_wrap wrap64_id)

lemma add64_exact: "in64 (a + b) \<Longrightarrow> add64 a b = a + b"
  by (simp add: add64_def wrap64_id)

lemma mul64_exact: "in64 (a * b) \<Longrightarrow> mul64 a b = a * b"
  by (simp add: mul64_def wrap64_id)

lemma neg64_exact: "in64 (- a) \<Longrightarrow> neg64 a = - a"
  by (simp add: neg64_def wrap64_id)

subsection \<open>Library calls\<close>

lemma randint_outcome_Inr:
  "randint_outcome low high sz draw \<Longrightarrow> randint low high sz draw = Inr draw"
  by (simp add: randint_outcome_def)

lemma randint_outcome_length:
  "randint_outcome low high sz draw \<Longrightarrow> int (length draw) = sz"
  by (simp add: randint_outcome_def)

lemma randint_outcome_nth:
  "randint_outcome low high sz draw \<Longrightarrow> i < length draw \<Longrightarrow> low \<le> draw ! i \<and> draw ! i < high"
  by (simp add: randint_outcome_def list_all_length)

lemma randint_outcome_all:
  "randint_outcome low high sz draw \<Longrightarrow> list_all (\<lambda>x. low \<le> x \<and> x < high) draw"
  by (simp add: randint_outcome_def)

lemma randint_outcome_size:
  "randint_outcome low high sz draw \<Longrightarrow> 0 \<le> sz \<and> sz < 2 ^ 60"
  by (auto simp add: randint_outcome_def randint_def split: if_splits)

lemma lattice_dimension: "\<lceil>real_of_int (2 * 10 + 1) * log 2 (real_of_int 10)\<rceil> = 70"
proof -
  have "log 2 ((10::real) ^ 21) = real 21 * log 2 10"
    by (rule log_nat_power) simp
  then have prod: "real_of_int (2 * 10 + 1) * log 2 (real_of_int 10) = log 2 (10 ^ 21)"
    by simp
  have lower: "69 < log 2 (10 ^ 21 :: real)"
    by (subst less_log_iff) (simp_all flip: powr_realpow)
  have upper: "log 2 (10 ^ 21 :: real) \<le> 70"
    by (subst log_le_iff) simp_all
  show ?thesis
    unfolding prod using lower upper by (intro ceiling_unique) simp_all
qed

subsection \<open>Inner products over the integers\<close>

lemma dot_Nil [simp]: "dot [] ys = 0" "dot xs [] = 0"
  by (simp_all add: dot_def)

lemma dot_Cons [simp]: "dot (x # xs) (y # ys) = x * y + dot xs ys"
  by (simp add: dot_def)

lemma dot_sum:
  "length xs = length ys \<Longrightarrow> dot xs ys = (\<Sum>i<length xs. xs ! i * ys ! i)"
proof (induction xs ys rule: list_induct2)
  case Nil
  then show ?case by simp
next
  case (Cons x xs y ys)
  then show ?case by (simp add: sum.lessThan_Suc_shift del: sum.lessThan_Suc)
qed

lemma dot_uminus: "dot (map uminus xs) ys = - dot xs ys"
  by (induction xs arbitrary: ys) (case_tac ys; simp)+

lemma dot_mod_cong:
  "k dvd q \<Longrightarrow> dot (map (\<lambda>x. f x mod q) xs) ys mod k = dot (map f xs) ys mod k"
proof (induction xs arbitrary: ys)
  case Nil
  then show ?case by simp
next
  case (Cons x xs)
  show ?case
  proof (cases ys)
    case Nil
    then show ?thesis by simp
  next
    case (Cons y ys')
    have "f x mod q mod k = f x mod k"
      using Cons.prems by (rule mod_mod_cancel)
    then have "(f x mod q * y) mod k = (f x * y) mod k"
      by (rule mod_mult_cong) simp
    then have "(f x mod q * y + dot (map (\<lambda>x. f x mod q) xs) ys') mod k
             = (f x * y + dot (map f xs) ys') mod k"
      using Cons.IH [OF Cons.prems, of ys'] by (rule mod_add_cong)
    then show ?thesis using Cons by simp
  qed
qed

lemma dot_transpose:
  assumes "length r = length rs" and "\<And>row. row \<in> set rs \<Longrightarrow> length row = length v"
  shows "dot (map (\<lambda>j. dot (map (\<lambda>row. row ! j) rs) r) [0..<length v]) v
       = (\<Sum>i<length rs. r ! i * dot (rs ! i) v)"
proof -
  have "dot (map (\<lambda>j. dot (map (\<lambda>row. row ! j) rs) r) [0..<length v]) v
      = (\<Sum>j<length v. (\<Sum>i<length rs. rs ! i ! j * r ! i) * v ! j)"
    using assms(1) by (simp add: dot_sum)
  also have "\<dots> = (\<Sum>j<length v. \<Sum>i<length rs. r ! i * (rs ! i ! j * v ! j))"
    by (simp add: sum_distrib_left sum_distrib_right mult_ac)
  also have "\<dots> = (\<Sum>i<length rs. \<Sum>j<length v. r ! i * (rs ! i ! j * v ! j))"
    by (rule sum.swap)
  also have "\<dots> = (\<Sum>i<length rs. r ! i * dot (rs ! i) v)"
    using assms(2) by (simp add: dot_sum sum_distrib_left)
  finally show ?thesis .
qed

text \<open>
  A bound on inner products of non-negative vectors. With entries below 10 and at most 70
  terms, as under the parameters \<open>setup\<close> returns, every inner product the program
  forms is at most \<open>70 * 81\<close>, far inside the 64-bit range.
\<close>

lemma dot_bounds:
  assumes "0 \<le> b"
    and "list_all (\<lambda>x. 0 \<le> x \<and> x \<le> a) xs" and "list_all (\<lambda>y. 0 \<le> y \<and> y \<le> b) ys"
  shows "0 \<le> dot xs ys \<and> dot xs ys \<le> int (length xs) * (a * b)"
  using assms
proof (induction xs arbitrary: ys)
  case Nil
  then show ?case by simp
next
  case (Cons x xs)
  show ?case
  proof (cases ys)
    case Nil
    with Cons.prems show ?thesis by (auto intro!: mult_nonneg_nonneg)
  next
    case ys: (Cons y ys')
    from Cons.prems ys have x: "0 \<le> x" "x \<le> a" and y: "0 \<le> y" "y \<le> b"
      and rest: "list_all (\<lambda>x. 0 \<le> x \<and> x \<le> a) xs" "list_all (\<lambda>y. 0 \<le> y \<and> y \<le> b) ys'"
      by simp_all
    from x y have "0 \<le> x * y" and "x * y \<le> a * b"
      by (simp_all add: mult_mono)
    with Cons.IH [OF Cons.prems(1) rest] show ?thesis
      by (simp add: ys algebra_simps)
  qed
qed

lemma dot_map_add:
  "dot (map (\<lambda>j. f j + g j) xs) v = dot (map f xs) v + dot (map g xs) v"
  by (induction xs arbitrary: v) (case_tac v; simp add: algebra_simps)+

lemma dot_map_zero [simp]: "dot (map (\<lambda>j. 0) xs) v = 0"
  by (induction xs arbitrary: v) (case_tac v; simp)+

lemma dot_unit_vector:
  "dot (map (\<lambda>j. if j = 0 then m else 0) [0..<Suc k]) (1 # s) = m"
proof -
  have "map (\<lambda>j. if j = 0 then m else 0) [0..<Suc k] = m # map (\<lambda>j. 0) [0..<k]"
    by (simp add: upt_conv_Cons del: upt_Suc flip: map_Suc_upt)
  then show ?thesis by simp
qed

lemma chunk_length:
  assumes "length flat = r * c" and "i < r"
  shows "length (chunk c flat i) = c"
proof -
  have "Suc i * c \<le> r * c" using assms(2) by (intro mult_le_mono1) simp
  then show ?thesis using assms(1) by (simp add: chunk_def)
qed


lemma map2_upt:
  "length ys = k \<Longrightarrow> map2 h (map f [0..<k]) ys = map (\<lambda>i. h (f i) (ys ! i)) [0..<k]"
  by (rule nth_equalityI) simp_all

lemma pk_row_check:
  "np_mod (dot (map (\<lambda>x. np_mod x q) ((dot a s + 2 * e) # map uminus a)) (1 # s)) q
   = np_mod (2 * e) q"
proof (cases "q = 0")
  case True
  then show ?thesis by (simp add: np_mod_def)
next
  case False
  have "dot (map (\<lambda>x. x mod q) ((dot a s + 2 * e) # map uminus a)) (1 # s) mod q
      = dot (map (\<lambda>x. x) ((dot a s + 2 * e) # map uminus a)) (1 # s) mod q"
    by (rule dot_mod_cong) simp
  also have "\<dots> = (2 * e) mod q"
    by (simp add: dot_uminus)
  finally show ?thesis using False by (simp add: np_mod_def)
qed


lemma public_key_gen_check:
  assumes lenE: "length draw_e = k" and sk: "sk = 1 # s"
  shows "map (\<lambda>i. np_mod (dot (np_mod (dot (chunk c draw_A i) (tl sk) + 2 * draw_e ! i) q
                                  # map (\<lambda>x. np_mod (- x) q) (chunk c draw_A i)) sk) q)
            [0..<k]
        = map (\<lambda>x. np_mod (2 * x) q) draw_e"
proof (rule nth_equalityI)
  show "length (map (\<lambda>i. np_mod (dot (np_mod (dot (chunk c draw_A i) (tl sk) + 2 * draw_e ! i) q
                                  # map (\<lambda>x. np_mod (- x) q) (chunk c draw_A i)) sk) q)
            [0..<k]) = length (map (\<lambda>x. np_mod (2 * x) q) draw_e)"
    using lenE by simp
next
  fix i
  assume "i < length (map (\<lambda>i. np_mod (dot (np_mod (dot (chunk c draw_A i) (tl sk) + 2 * draw_e ! i) q
                                  # map (\<lambda>x. np_mod (- x) q) (chunk c draw_A i)) sk) q)
            [0..<k])"
  then have i: "i < k" by simp
  show "map (\<lambda>i. np_mod (dot (np_mod (dot (chunk c draw_A i) (tl sk) + 2 * draw_e ! i) q
                                  # map (\<lambda>x. np_mod (- x) q) (chunk c draw_A i)) sk) q)
            [0..<k] ! i = map (\<lambda>x. np_mod (2 * x) q) draw_e ! i"
    using pk_row_check [of q "chunk c draw_A i" s "draw_e ! i"] i lenE
    by (simp add: sk comp_def)
qed

subsection \<open>No overflow under small entries\<close>

lemma list_all_chunk: "list_all P flat \<Longrightarrow> list_all P (chunk c flat i)"
  unfolding chunk_def list_all_iff
  by (meson in_set_dropD in_set_takeD)

lemma dot_range:
  assumes "list_all (\<lambda>x. 0 \<le> x \<and> x < q) xs" and "list_all (\<lambda>y. 0 \<le> y \<and> y < p) ys"
    and "0 < p"
  shows "0 \<le> dot xs ys \<and> dot xs ys \<le> int (length xs) * ((q - 1) * (p - 1))"
proof -
  have "list_all (\<lambda>x. 0 \<le> x \<and> x \<le> q - 1) xs" and "list_all (\<lambda>y. 0 \<le> y \<and> y \<le> p - 1) ys"
    using assms(1,2) by (simp_all add: list_all_iff)
  moreover have "0 \<le> p - 1" using assms(3) by simp
  ultimately show ?thesis by (intro dot_bounds)
qed

lemma square_bounds:
  fixes q n k B :: int
  assumes q: "1 \<le> q" and k: "0 \<le> k" "k \<le> n" and b: "(n + 1) * (q * q) < B"
  shows "k * ((q - 1) * (q - 1)) + 2 * (q - 1) < B"
    and "(q - 1) + k * ((q - 1) * (q - 1)) < B"
    and "2 * (q - 1) < B"
    and "q < B"
proof -
  define S where "S = (q - 1) * (q - 1)"
  define Q where "Q = q * q"
  define T where "T = k * S"
  define U where "U = n * Q"
  have s0: "0 \<le> S" by (simp add: S_def)
  have sq: "Q = S + 2 * q - 1" by (simp add: S_def Q_def algebra_simps)
  have "k * S \<le> n * S"
    using k s0 by (intro mult_right_mono) simp_all
  also have "\<dots> \<le> n * Q"
    using k q sq s0 by (intro mult_left_mono) simp_all
  finally have ks: "T \<le> U" by (simp add: T_def U_def)
  have split: "(n + 1) * Q = U + Q" by (simp add: U_def algebra_simps)
  have t0: "0 \<le> T" using k s0 by (simp add: T_def)
  from b have b': "U + Q < B" unfolding Q_def [symmetric] split .
  have "T + 2 * (q - 1) < B" using ks b' sq s0 by presburger
  then show "k * ((q - 1) * (q - 1)) + 2 * (q - 1) < B"
    by (simp add: T_def S_def)
  have "(q - 1) + T < B" using ks b' sq s0 q by presburger
  then show "(q - 1) + k * ((q - 1) * (q - 1)) < B"
    by (simp add: T_def S_def)
  show "2 * (q - 1) < B"
    using ks t0 b' sq s0 by presburger
  show "q < B"
    using ks t0 b' sq s0 q by presburger
qed

lemma in64_I: "0 \<le> x \<Longrightarrow> x < 2 ^ 63 \<Longrightarrow> in64 x"
  by (simp add: in64_def)

lemma row_exact:
  assumes q: "0 < q" and n0: "0 \<le> n" and b: "(n + 1) * (q * q) < 2 ^ 63"
    and a: "list_all (\<lambda>x. 0 \<le> x \<and> x < q) a" and la: "int (length a) \<le> n"
    and s: "list_all (\<lambda>x. 0 \<le> x \<and> x < q) s"
    and e: "0 \<le> e" "e < q"
    and p: "0 \<le> p" "p < q"
  shows "dot64 a s = dot a s"
    and "mul64 2 e = 2 * e"
    and "add64 (dot a s) (2 * e) = dot a s + 2 * e"
    and "map (\<lambda>x. np_mod (neg64 x) q) a = map (\<lambda>x. np_mod (- x) q) a"
    and "dot64 (p # a) (1 # s) = dot (p # a) (1 # s)"
proof -
  note S = square_bounds [OF _ _ la b]
  have d: "0 \<le> dot a s" "dot a s \<le> int (length a) * ((q - 1) * (q - 1))"
    using dot_range [OF a s q] by simp_all
  show "dot64 a s = dot a s"
    using d S(1) q by (intro dot64_exact in64_I) simp_all
  show "mul64 2 e = 2 * e"
    using e S(3) q by (intro mul64_exact in64_I) simp_all
  show "add64 (dot a s) (2 * e) = dot a s + 2 * e"
    using d e S(1) q by (intro add64_exact in64_I) simp_all
  show "map (\<lambda>x. np_mod (neg64 x) q) a = map (\<lambda>x. np_mod (- x) q) a"
  proof (rule map_cong [OF refl])
    fix x assume "x \<in> set a"
    with a have "0 \<le> x" "x < q" by (simp_all add: list_all_iff)
    with S(4) q have "in64 (- x)" by (simp add: in64_def)
    then show "np_mod (neg64 x) q = np_mod (- x) q" by (simp add: neg64_exact)
  qed
  show "dot64 (p # a) (1 # s) = dot (p # a) (1 # s)"
    using p d S(2) q by (intro dot64_exact in64_I) simp_all
qed


lemma in64_modulus:
  fixes q n :: int
  assumes "0 \<le> n" and "(n + 1) * (q * q) < 2 ^ 63"
  shows "in64 q"
proof -
  have "\<bar>q\<bar> \<le> q * q"
  proof (cases "q = 0")
    case True
    then show ?thesis by simp
  next
    case False
    then have "1 \<le> \<bar>q\<bar>" by simp
    then have "\<bar>q\<bar> * 1 \<le> \<bar>q\<bar> * \<bar>q\<bar>" by (intro mult_left_mono) simp_all
    then show ?thesis by (simp add: abs_mult_self_eq)
  qed
  moreover have "q * q \<le> (n + 1) * (q * q)"
    using assms(1) by (simp add: mult_le_cancel_right1)
  ultimately show ?thesis using assms(2) by (simp add: in64_def abs_le_iff)
qed

subsection \<open>The value of each stage on well-formed inputs\<close>

lemma public_key_gen_unfold:
  assumes A: "randint_outcome 0 q (N * n) draw_A"
    and E: "randint_outcome 0 q N draw_e"
    and n0: "0 \<le> n"
    and len: "int (length sk) = n + 1"
    and small: "list_all (\<lambda>x. 0 \<le> x \<and> x < q) (tl sk)"
    and bound: "(n + 1) * (q * q) < 2 ^ 63"
  shows "public_key_gen (q, d, n, N, chi) sk draw_A draw_e =
    (if map (\<lambda>i. np_mod (dot64 (np_mod (dot (chunk (nat n) draw_A i) (tl sk) + 2 * draw_e ! i) q
                                  # map (\<lambda>x. np_mod (- x) q) (chunk (nat n) draw_A i)) sk) q)
            [0..<nat N]
        = map (\<lambda>x. np_mod (2 * x) q) draw_e
     then Inr \<lparr>ncols = Suc (nat n),
         rows = map (\<lambda>i. np_mod (dot (chunk (nat n) draw_A i) (tl sk) + 2 * draw_e ! i) q
                          # map (\<lambda>x. np_mod (- x) q) (chunk (nat n) draw_A i))
                    [0..<nat N]\<rparr>
     else Inl CorrectnessViolation)"
proof -
  define rowA where "rowA = chunk (nat n) draw_A"
  define b where "b i = dot (rowA i) (tl sk) + 2 * draw_e ! i" for i
  define pkrow where "pkrow i = np_mod (b i) q # map (\<lambda>x. np_mod (- x) q) (rowA i)" for i
  from E have N0: "0 \<le> N" and N63: "N < 2 ^ 63" and lenE: "length draw_e = nat N"
    using randint_outcome_length [OF E] randint_outcome_size [OF E] by auto
  have lenA: "int (length draw_A) = N * n"
    by (rule randint_outcome_length [OF A])
  from len n0 have lens: "length (tl sk) = nat n" and lensk: "length sk = Suc (nat n)"
    by auto
  have q64: "in64 q"
    by (rule in64_modulus [OF n0 bound])
  have n63: "n < 2 ^ 63"
  proof (cases "q = 0")
    case True
    with small have "tl sk = []" by (cases "tl sk") auto
    with lens n0 show ?thesis by simp
  next
    case False
    then have "1 \<le> \<bar>q\<bar>" by simp
    then have "1 * 1 \<le> \<bar>q\<bar> * \<bar>q\<bar>" by (intro mult_mono) simp_all
    then have "1 \<le> q * q" by (simp add: abs_mult_self_eq)
    then have "(n + 1) * 1 \<le> (n + 1) * (q * q)"
      using n0 by (intro mult_left_mono) simp_all
    with bound show ?thesis by simp
  qed
  have row: "0 < q \<and> list_all (\<lambda>x. 0 \<le> x \<and> x < q) (rowA i) \<and> int (length (rowA i)) \<le> n
             \<and> 0 \<le> draw_e ! i \<and> draw_e ! i < q"
    if i: "i < nat N" for i
  proof -
    from randint_outcome_nth [OF E, of i] i lenE have e: "0 \<le> draw_e ! i" "draw_e ! i < q"
      by simp_all
    have "length draw_A = nat (N * n)" using lenA by linarith
    then have "length draw_A = nat N * nat n" using i by (simp add: nat_mult_distrib)
    from chunk_length [OF this i] have "int (length (rowA i)) \<le> n"
      using n0 by (simp add: rowA_def)
    moreover have "list_all (\<lambda>x. 0 \<le> x \<and> x < q) (rowA i)"
      unfolding rowA_def by (rule list_all_chunk [OF randint_outcome_all [OF A]])
    ultimately show ?thesis using e by simp
  qed
  have X: "dot64 (rowA i) (tl sk) = dot (rowA i) (tl sk)"
      "mul64 2 (draw_e ! i) = 2 * draw_e ! i"
      "add64 (dot (rowA i) (tl sk)) (2 * draw_e ! i) = b i"
      "map (\<lambda>x. np_mod (neg64 x) q) (rowA i) = map (\<lambda>x. np_mod (- x) q) (rowA i)"
    if i: "i < nat N" for i
    using row_exact [of q n "rowA i" "tl sk" "draw_e ! i" 0] row [OF i] n0 bound small
    by (simp_all add: b_def)
  have s1: "randint 0 q (N * n) draw_A = Inr draw_A"
    by (rule randint_outcome_Inr [OF A])
  have s2: "reshape draw_A N n = Inr \<lparr>ncols = nat n, rows = map rowA [0..<nat N]\<rparr>"
    using N0 n0 lenA N63 n63 by (simp add: reshape_def rowA_def)
  have s3: "randint 0 q N draw_e = Inr draw_e"
    by (rule randint_outcome_Inr [OF E])
  have "map (\<lambda>i. dot64 (rowA i) (tl sk)) [0..<nat N] = map (\<lambda>i. dot (rowA i) (tl sk)) [0..<nat N]"
    by (rule map_cong [OF refl]) (simp add: X(1))
  then have s4: "np_dot \<lparr>ncols = nat n, rows = map rowA [0..<nat N]\<rparr> (tl sk)
          = Inr (map (\<lambda>i. dot (rowA i) (tl sk)) [0..<nat N])"
    using lens by (simp add: np_dot_def comp_def)
  have "map (\<lambda>i. add64 (dot (rowA i) (tl sk)) (mul64 2 (draw_e ! i))) [0..<nat N] = map b [0..<nat N]"
    by (rule map_cong [OF refl]) (simp add: X(2,3))
  then have s5: "broadcast2 add64 (map (\<lambda>i. dot (rowA i) (tl sk)) [0..<nat N]) (map (mul64 2) draw_e)
          = Inr (map b [0..<nat N])"
    using lenE by (simp add: broadcast2_def map2_upt)
  have s6: "hstack N (map b [0..<nat N])
              (matrix_map neg64 \<lparr>ncols = nat n, rows = map rowA [0..<nat N]\<rparr>)
          = Inr \<lparr>ncols = Suc (nat n), rows = map (\<lambda>i. b i # map neg64 (rowA i)) [0..<nat N]\<rparr>"
    using N0 by (simp add: hstack_def matrix_map_def map2_upt comp_def)
  have "map (\<lambda>i. np_mod (b i) q # map (\<lambda>x. np_mod (neg64 x) q) (rowA i)) [0..<nat N]
      = map pkrow [0..<nat N]"
    unfolding pkrow_def by (rule map_cong [OF refl]) (simp add: X(4))
  then have s7: "matrix_map (\<lambda>x. np_mod x q)
              \<lparr>ncols = Suc (nat n), rows = map (\<lambda>i. b i # map neg64 (rowA i)) [0..<nat N]\<rparr>
          = \<lparr>ncols = Suc (nat n), rows = map pkrow [0..<nat N]\<rparr>"
    by (simp add: matrix_map_def comp_def)
  have s8: "np_dot \<lparr>ncols = Suc (nat n), rows = map pkrow [0..<nat N]\<rparr> sk
          = Inr (map (\<lambda>i. dot64 (pkrow i) sk) [0..<nat N])"
    using lensk by (simp add: np_dot_def comp_def)
  have s9: "map (\<lambda>x. np_mod (mul64 2 x) q) draw_e = map (\<lambda>x. np_mod (2 * x) q) draw_e"
  proof (rule map_cong [OF refl])
    fix x assume "x \<in> set draw_e"
    then obtain i where "i < nat N" "x = draw_e ! i"
      using lenE by (auto simp add: in_set_conv_nth)
    with X(2) [of i] show "np_mod (mul64 2 x) q = np_mod (2 * x) q"
      by simp
  qed
  have "public_key_gen (q, d, n, N, chi) sk draw_A draw_e =
    (if map (\<lambda>i. np_mod (dot64 (pkrow i) sk) q) [0..<nat N] = map (\<lambda>x. np_mod (2 * x) q) draw_e
     then Inr \<lparr>ncols = Suc (nat n), rows = map pkrow [0..<nat N]\<rparr>
     else Inl CorrectnessViolation)"
    unfolding public_key_gen_def
    by (simp add: s1 s2 s3 s4 s5 s6 s7 s8 s9 [unfolded comp_def] q64 Let_def comp_def)
  then show ?thesis
    by (simp add: pkrow_def b_def rowA_def)
qed

lemma np_mod_range: "0 < q \<Longrightarrow> 0 \<le> np_mod x q \<and> np_mod x q < q"
  by (simp add: np_mod_def)

lemma public_key_gen_value:
  assumes A: "randint_outcome 0 q (N * n) draw_A"
    and E: "randint_outcome 0 q N draw_e"
    and n0: "0 \<le> n"
    and len: "int (length sk) = n + 1"
    and small: "list_all (\<lambda>x. 0 \<le> x \<and> x < q) (tl sk)"
    and bound: "(n + 1) * (q * q) < 2 ^ 63"
    and sk0: "sk ! 0 = 1"
  shows "public_key_gen (q, d, n, N, chi) sk draw_A draw_e =
     Inr \<lparr>ncols = Suc (nat n),
         rows = map (\<lambda>i. np_mod (dot (chunk (nat n) draw_A i) (tl sk) + 2 * draw_e ! i) q
                          # map (\<lambda>x. np_mod (- x) q) (chunk (nat n) draw_A i))
                    [0..<nat N]\<rparr>"
proof -
  from len n0 sk0 obtain s where sk: "sk = 1 # s" by (cases sk) auto
  from E have lenE: "length draw_e = nat N"
    using randint_outcome_length [OF E] by auto
  have "dot64 (np_mod (dot (chunk (nat n) draw_A i) (tl sk) + 2 * draw_e ! i) q
                 # map (\<lambda>x. np_mod (- x) q) (chunk (nat n) draw_A i)) sk
      = dot (np_mod (dot (chunk (nat n) draw_A i) (tl sk) + 2 * draw_e ! i) q
                 # map (\<lambda>x. np_mod (- x) q) (chunk (nat n) draw_A i)) sk"
    if i: "i < nat N" for i
  proof -
    from randint_outcome_nth [OF E, of i] i lenE have q: "0 < q" by simp
    have "length draw_A = nat (N * n)" using randint_outcome_length [OF A] by linarith
    then have "length draw_A = nat N * nat n" using i by (simp add: nat_mult_distrib)
    from chunk_length [OF this i] have l: "int (length (map (\<lambda>x. np_mod (- x) q) (chunk (nat n) draw_A i))) \<le> n"
      using n0 by simp
    have a: "list_all (\<lambda>x. 0 \<le> x \<and> x < q) (map (\<lambda>x. np_mod (- x) q) (chunk (nat n) draw_A i))"
      using np_mod_range [OF q] by (simp add: list_all_iff)
    show ?thesis
      unfolding sk
      using row_exact(5) [OF q n0 bound a l, of s 0
          "np_mod (dot (chunk (nat n) draw_A i) (tl (1 # s)) + 2 * draw_e ! i) q"]
        small q np_mod_range [OF q] by (simp add: sk)
  qed
  then have "map (\<lambda>i. np_mod (dot64 (np_mod (dot (chunk (nat n) draw_A i) (tl sk) + 2 * draw_e ! i) q
                                  # map (\<lambda>x. np_mod (- x) q) (chunk (nat n) draw_A i)) sk) q)
            [0..<nat N]
     = map (\<lambda>i. np_mod (dot (np_mod (dot (chunk (nat n) draw_A i) (tl sk) + 2 * draw_e ! i) q
                                  # map (\<lambda>x. np_mod (- x) q) (chunk (nat n) draw_A i)) sk) q)
            [0..<nat N]"
    by (intro map_cong [OF refl]) simp
  then show ?thesis
    unfolding public_key_gen_unfold [OF A E n0 len small bound]
    using public_key_gen_check [OF lenE sk] by simp
qed

lemma secret_key_gen_value:
  assumes "randint_outcome 0 q (n + 1) draw_sk" and "0 \<le> n"
  shows "secret_key_gen (q, d, n, N, chi) draw_sk = Inr (1 # tl draw_sk)"
    and "length (tl draw_sk) = nat n"
    and "list_all (\<lambda>x. 0 \<le> x \<and> x < q) (tl draw_sk)"
proof -
  from randint_outcome_length [OF assms(1)] assms(2)
  obtain x xs where d: "draw_sk = x # xs" and "length xs = nat n"
    by (cases draw_sk) auto
  then show "length (tl draw_sk) = nat n" by simp
  show "secret_key_gen (q, d, n, N, chi) draw_sk = Inr (1 # tl draw_sk)"
    using d randint_outcome_Inr [OF assms(1)] by (simp add: secret_key_gen_def)
  show "list_all (\<lambda>x. 0 \<le> x \<and> x < q) (tl draw_sk)"
    using randint_outcome_all [OF assms(1)] d by simp
qed

lemma decrypt_value:
  "length c = length sk \<Longrightarrow> in64 q \<Longrightarrow>
   decrypt (q, d, n, N, chi) sk c = Inr (np_mod (np_mod (dot64 c sk) q) 2)"
  by (simp add: decrypt_def broadcast2_def dot64_def)

lemma column_exact:
  fixes q N :: int
  assumes q: "0 < q" and bound: "(N + 1) * q < 2 ^ 63"
    and col: "list_all (\<lambda>x. 0 \<le> x \<and> x < q) col" and lcol: "int (length col) = N"
    and r: "list_all (\<lambda>x. 0 \<le> x \<and> x < 2) r"
    and m: "m = 0 \<or> m = 1"
  shows "dot64 col r = dot col r" and "add64 m (dot col r) = m + dot col r"
proof -
  define P where "P = N * q"
  have d: "0 \<le> dot col r" "dot col r \<le> N * (q - 1)"
    using dot_range [OF col r] lcol by simp_all
  have N0: "0 \<le> N" using lcol by linarith
  have e1: "N * (q - 1) = P - N" and e2: "(N + 1) * q = P + q"
    by (simp_all add: P_def algebra_simps)
  from bound have b: "P + q < 2 ^ 63" unfolding e2 .
  have "dot col r < 2 ^ 63" using d(2) b N0 q unfolding e1 by linarith
  then show "dot64 col r = dot col r"
    using d(1) by (intro dot64_exact in64_I)
  have "m + dot col r < 2 ^ 63" using d(2) b N0 q m unfolding e1 by linarith
  moreover have "0 \<le> m + dot col r" using d(1) m by auto
  ultimately show "add64 m (dot col r) = m + dot col r"
    by (intro add64_exact in64_I)
qed

lemma encrypt_value:
  assumes q: "0 < q"
    and rws: "int (length (rows pk)) = N"
    and cls: "int (ncols pk) = n + 1"
    and n63: "n < 2 ^ 63"
    and wf: "list_all (\<lambda>row. length row = ncols pk) (rows pk)"
    and ent: "list_all (list_all (\<lambda>x. 0 \<le> x \<and> x < q)) (rows pk)"
    and m: "message = 0 \<or> message = 1"
    and R: "randint_outcome 0 2 N draw_r"
    and bound: "(N + 1) * q < 2 ^ 63"
  shows "encrypt (q, d, n, N, chi) pk message draw_r =
     Inr (map (\<lambda>j. np_mod ((if j = 0 then message else 0)
                              + dot (map (\<lambda>row. row ! j) (rows pk)) draw_r) q)
              [0..<ncols pk])"
proof -
  define col where "col j = map (\<lambda>row. row ! j) (rows pk)" for j
  have lenR: "length draw_r = length (rows pk)"
    using randint_outcome_length [OF R] rws by linarith
  have N0: "0 \<le> N" using rws by linarith
  have "0 \<le> N * q" using N0 q by simp
  moreover have "(N + 1) * q = N * q + q" by (simp add: algebra_simps)
  ultimately have "q < 2 ^ 63" using bound by linarith
  with q have q64: "in64 q" by (simp add: in64_def)
  have colr: "list_all (\<lambda>x. 0 \<le> x \<and> x < q) (col j)" if j: "j < ncols pk" for j
    using wf ent j unfolding col_def list_all_iff by fastforce
  have X: "dot64 (col j) draw_r = dot (col j) draw_r"
      "add64 (if j = 0 then message else 0) (dot (col j) draw_r)
         = (if j = 0 then message else 0) + dot (col j) draw_r"
    if j: "j < ncols pk" for j
    using column_exact [OF q bound colr [OF j] _ randint_outcome_all [OF R],
        of "if j = 0 then message else 0"] rws m
    by (simp_all add: col_def)
  have s1: "randint 0 2 N draw_r = Inr draw_r"
    by (rule randint_outcome_Inr [OF R])
  have "map (\<lambda>j. dot64 (col j) draw_r) [0..<ncols pk] = map (\<lambda>j. dot (col j) draw_r) [0..<ncols pk]"
    by (rule map_cong [OF refl]) (simp add: X(1))
  then have s2: "np_dot (matrix_T pk) draw_r = Inr (map (\<lambda>j. dot (col j) draw_r) [0..<ncols pk])"
    using lenR by (simp add: np_dot_def matrix_T_def comp_def col_def)
  have s3: "broadcast2 add64 (message # replicate (nat n) 0)
              (map (\<lambda>j. dot (col j) draw_r) [0..<ncols pk])
          = Inr (map (\<lambda>j. (if j = 0 then message else 0) + dot (col j) draw_r) [0..<ncols pk])"
  proof (cases "0 \<le> n")
    case True
    with cls have c: "ncols pk = Suc (nat n)" by linarith
    have "map2 add64 (message # replicate (nat n) 0)
              (map (\<lambda>j. dot (col j) draw_r) [0..<Suc (nat n)])
        = map (\<lambda>j. add64 (if j = 0 then message else 0) (dot (col j) draw_r)) [0..<Suc (nat n)]"
      by (rule nth_equalityI) (auto simp add: nth_Cons' simp del: upt_Suc)
    also have "\<dots> = map (\<lambda>j. (if j = 0 then message else 0) + dot (col j) draw_r) [0..<Suc (nat n)]"
      by (rule map_cong [OF refl]) (simp add: X(2) c del: upt_Suc)
    finally show ?thesis unfolding c by (simp add: broadcast2_def del: upt_Suc)
  next
    case False
    with cls have "ncols pk = 0" and "nat n = 0" by linarith+
    then show ?thesis by (simp add: broadcast2_def)
  qed
  show ?thesis
    using m n63 unfolding encrypt_def
    by (auto simp add: s1 s2 s3 q64 Let_def comp_def col_def [symmetric])
qed


lemma dot64_key_exact:
  assumes q: "0 < q" and n0: "0 \<le> n" and b: "(n + 1) * (q * q) < 2 ^ 63"
    and xs: "list_all (\<lambda>x. 0 \<le> x \<and> x < q) xs" and lxs: "int (length xs) \<le> n + 1"
    and s: "list_all (\<lambda>x. 0 \<le> x \<and> x < q) s"
  shows "dot64 xs (1 # s) = dot xs (1 # s)"
proof (cases xs)
  case Nil
  then show ?thesis by (simp add: dot64_def)
next
  case (Cons p a)
  with xs lxs show ?thesis
    using row_exact(5) [OF q n0 b _ _ s, of a 0 p] q by simp
qed

lemma round_trip_even_modulus:
  assumes ev: "even q" and q: "0 < q" and n0: "0 \<le> n"
    and SK: "randint_outcome 0 q (n + 1) draw_sk"
    and A: "randint_outcome 0 q (N * n) draw_A"
    and E: "randint_outcome 0 q N draw_e"
    and R: "randint_outcome 0 2 N draw_r"
    and m: "message = 0 \<or> message = 1"
    and b1: "(n + 1) * (q * q) < 2 ^ 63"
    and b2: "(N + 1) * q < 2 ^ 63"
  shows "\<exists>sk pk c. secret_key_gen (q, d, n, N, chi) draw_sk = Inr sk \<and>
           public_key_gen (q, d, n, N, chi) sk draw_A draw_e = Inr pk \<and>
           encrypt (q, d, n, N, chi) pk message draw_r = Inr c \<and>
           decrypt (q, d, n, N, chi) sk c = Inr message"
proof -
  define s where "s = tl draw_sk"
  define sk where "sk = 1 # s"
  define pkrow where "pkrow i = np_mod (dot (chunk (nat n) draw_A i) (tl sk) + 2 * draw_e ! i) q
                          # map (\<lambda>x. np_mod (- x) q) (chunk (nat n) draw_A i)" for i
  define pk where "pk = \<lparr>ncols = Suc (nat n), rows = map pkrow [0..<nat N]\<rparr>"
  define t where "t j = (if j = 0 then message else 0)
                          + dot (map (\<lambda>row. row ! j) (rows pk)) draw_r" for j
  define c where "c = map (\<lambda>j. np_mod (t j) q) [0..<ncols pk]"
  have lens: "length s = nat n" and ret1: "secret_key_gen (q, d, n, N, chi) draw_sk = Inr sk"
    and small: "list_all (\<lambda>x. 0 \<le> x \<and> x < q) s"
    using secret_key_gen_value [OF SK n0] by (simp_all add: s_def sk_def)
  have small': "list_all (\<lambda>x. 0 \<le> x \<and> x < q) (tl sk)"
    using small by (simp add: sk_def)
  have q64: "in64 q"
    by (rule in64_modulus [OF n0 b1])
  have "1 * 1 \<le> q * q" using q by (intro mult_mono) simp_all
  then have "(n + 1) * 1 \<le> (n + 1) * (q * q)"
    using n0 by (intro mult_left_mono) simp_all
  with b1 have n63: "n < 2 ^ 63" by simp
  have len: "int (length sk) = n + 1" and lensk: "length sk = Suc (nat n)"
    using lens n0 by (simp_all add: sk_def)
  have sk0: "sk ! 0 = 1" by (simp add: sk_def)
  have ret2: "public_key_gen (q, d, n, N, chi) sk draw_A draw_e = Inr pk"
    unfolding pk_def pkrow_def by (rule public_key_gen_value [OF A E n0 len small' b1 sk0])
  have lenE: "length draw_e = nat N" and lenR: "length draw_r = nat N"
    using randint_outcome_length [OF E] randint_outcome_length [OF R] by linarith+
  have rws: "int (length (rows pk)) = N" and cls: "int (ncols pk) = n + 1"
    using lenE randint_outcome_length [OF E] n0 by (simp_all add: pk_def)
  have rowlen: "length row = length sk" if "row \<in> set (rows pk)" for row
  proof -
    from that obtain i where i: "i < nat N" and row: "row = pkrow i"
      by (auto simp add: pk_def)
    have "length draw_A = nat (N * n)"
      using randint_outcome_length [OF A] by linarith
    then have "length draw_A = nat N * nat n"
      using i by (simp add: nat_mult_distrib)
    from chunk_length [OF this i] show ?thesis
      by (simp add: row pkrow_def lensk)
  qed
  have wf: "list_all (\<lambda>row. length row = ncols pk) (rows pk)"
    using rowlen by (simp add: list_all_iff pk_def lensk)
  have ent: "list_all (list_all (\<lambda>x. 0 \<le> x \<and> x < q)) (rows pk)"
    using np_mod_range [OF q] by (simp add: list_all_iff pk_def pkrow_def)
  have ret3: "encrypt (q, d, n, N, chi) pk message draw_r = Inr c"
    unfolding c_def t_def by (rule encrypt_value [OF q rws cls n63 wf ent m R b2])
  have lenc: "length c = length sk"
    by (simp add: c_def pk_def lensk)
  have "list_all (\<lambda>x. 0 \<le> x \<and> x < q) c"
    using np_mod_range [OF q] by (simp add: list_all_iff c_def)
  moreover have "int (length c) \<le> n + 1"
    using lenc lensk n0 by simp
  ultimately have "dot64 c sk = dot c sk"
    unfolding sk_def using small by (intro dot64_key_exact [OF q n0 b1])
  then have ret4: "decrypt (q, d, n, N, chi) sk c = Inr (dot c sk mod 2)"
    using q ev by (simp add: decrypt_value [OF lenc q64] np_mod_def mod_mod_cancel)
  have row_even: "even (dot (rows pk ! i) sk)" if i: "i < length (rows pk)" for i
  proof -
    from i have i': "i < nat N" by (simp add: pk_def)
    have "np_mod (dot (pkrow i) sk) q = np_mod (2 * draw_e ! i) q"
      using pk_row_check [of q "chunk (nat n) draw_A i" s "draw_e ! i"]
      by (simp add: pkrow_def sk_def comp_def)
    then have "dot (pkrow i) sk mod q = (2 * draw_e ! i) mod q"
      using q by (simp add: np_mod_def)
    then have "dot (pkrow i) sk mod q mod 2 = (2 * draw_e ! i) mod q mod 2"
      by simp
    then have "dot (pkrow i) sk mod 2 = (2 * draw_e ! i) mod 2"
      using ev by (simp add: mod_mod_cancel)
    then show ?thesis using i' by (simp add: pk_def even_iff_mod_2_eq_zero)
  qed
  have nc: "ncols pk = length sk"
    by (simp add: pk_def lensk)
  have unit: "dot (map (\<lambda>j. if j = 0 then message else 0) [0..<length sk]) sk = message"
    unfolding lensk unfolding sk_def by (rule dot_unit_vector)
  have cols: "dot (map (\<lambda>j. dot (map (\<lambda>row. row ! j) (rows pk)) draw_r) [0..<length sk]) sk
      = (\<Sum>i<length (rows pk). draw_r ! i * dot (rows pk ! i) sk)"
    by (rule dot_transpose) (simp_all add: lenR pk_def rowlen [unfolded pk_def])
  have "dot c sk mod 2 = dot (map t [0..<length sk]) sk mod 2"
    using q ev unfolding c_def np_mod_def nc
    by (simp add: dot_mod_cong [of 2 q t])
  also have "dot (map t [0..<length sk]) sk
      = message + (\<Sum>i<length (rows pk). draw_r ! i * dot (rows pk ! i) sk)"
    unfolding t_def dot_map_add unit cols ..
  also have "\<dots> mod 2 = message"
  proof -
    have "even (\<Sum>i<length (rows pk). draw_r ! i * dot (rows pk ! i) sk)"
      by (rule dvd_sum) (simp add: row_even)
    then show ?thesis using m by (auto simp add: mod_add_right_eq even_iff_mod_2_eq_zero)
  qed
  finally have "dot c sk mod 2 = message" .
  with ret1 ret2 ret3 ret4 show ?thesis by simp
qed

lemma randint_outcome_iff:
  assumes "0 < sz" and "sz < 2 ^ 60" and "- (2 ^ 63) \<le> low" and "high \<le> 2 ^ 63"
  shows "randint_outcome low high sz draw \<longleftrightarrow>
           int (length draw) = sz \<and> list_all (\<lambda>x. low \<le> x \<and> x < high) draw"
proof -
  have "low < high" if "int (length draw) = sz" and "list_all (\<lambda>x. low \<le> x \<and> x < high) draw"
    using that assms(1) by (cases draw) auto
  then show ?thesis using assms by (auto simp add: randint_outcome_def randint_def)
qed

subsection \<open>Worked examples\<close>






subsection \<open>Parameter setup\<close>

text \<open>
  C3 (amended). For all integers \<open>bit_length\<close> and \<open>base_value\<close>, every
  \<open>mod_size\<close> with \<open>0 \<le> mod_size < 2 ^ 31\<close> and every value of the initial random
  draw, \<open>setup\<close> returns exactly \<open>q = 10, d = 10, n = 10, N = 70, chi = 1\<close>.
\<close>

theorem setup_constant:
  "0 \<le> mod_size \<Longrightarrow> mod_size < 2 ^ 31 \<Longrightarrow>
     setup' bit_length mod_size base_value draw_q = Inr (10, 10, 10, 70, 1)"
  using lattice_dimension by (simp add: setup'_def getrandbits_def)

theorem setup_constant_witness:
  "(0::int) \<le> 1 \<and> (1::int) < 2 ^ 31 \<and> setup' 1 1 1 1 = Inr (10, 10, 10, 70, 1)"
  using setup_constant [of 1 1 1 1] by simp

text \<open>
  C3 as stated ("for all integer inputs") fails: with a negative \<open>mod_size\<close> the initial
  draw \<open>getrandbits(mod_size)\<close> raises and no tuple is returned.
\<close>

theorem setup_negative_mod_size_counterexample:
  "setup' 1 (- 1) 1 0 = Inl ValueError"
  by (simp add: setup'_def getrandbits_def)

subsection \<open>Secret key generation\<close>

text \<open>
  C5 (amended). For every parameter tuple with \<open>0 < q \<le> 2 ^ 63\<close> and
  \<open>0 \<le> n\<close>, \<open>n + 1 < 2 ^ 60\<close> (the bounds under which the draw returns) and every
  random draw, \<open>secret_key_gen\<close> returns a vector of length \<open>n + 1\<close> whose element 0
  is exactly 1 and whose elements \<open>1..n\<close> are the drawn ones, all in \<open>[0, q)\<close>.
\<close>

theorem secret_key_gen_invariant:
  assumes "0 < q" and "q \<le> 2 ^ 63" and "0 \<le> n" and "n + 1 < 2 ^ 60"
    and "randint_outcome 0 q (n + 1) draw_sk"
  shows "\<exists>sk. secret_key_gen (q, d, n, N, chi) draw_sk = Inr sk \<and>
           int (length sk) = n + 1 \<and> sk ! 0 = 1 \<and>
           (\<forall>i. 1 \<le> i \<and> i < length sk \<longrightarrow>
                sk ! i = draw_sk ! i \<and> 0 \<le> sk ! i \<and> sk ! i < q)"
proof -
  from assms(5) have len: "int (length draw_sk) = n + 1"
    and rng: "\<And>i. i < length draw_sk \<Longrightarrow> 0 \<le> draw_sk ! i \<and> draw_sk ! i < q"
    by (simp_all add: randint_outcome_def list_all_length)
  from len assms(3) have ne: "draw_sk \<noteq> []" by auto
  have "secret_key_gen (q, d, n, N, chi) draw_sk = Inr (draw_sk[0 := 1])"
    using ne by (simp add: secret_key_gen_def randint_outcome_Inr [OF assms(5)])
  moreover have "(draw_sk[0 := 1]) ! 0 = 1" using ne by simp
  ultimately show ?thesis using len rng by auto
qed

theorem secret_key_gen_invariant_witness:
  "(0::int) < 10 \<and> (10::int) \<le> 2 ^ 63 \<and> (0::int) \<le> 2 \<and> (2::int) + 1 < 2 ^ 60 \<and>
   randint_outcome 0 10 (2 + 1) [7, 0, 9] \<and>
   secret_key_gen (10, 10, 2, 5, 1) [7, 0, 9] = Inr [1, 0, 9]"
  using secret_key_gen_invariant [of 10 2 "[7, 0, 9]" 10 5 1]
  by (simp add: randint_outcome_def secret_key_gen_def randint_def)

text \<open>
  C5 as stated (every parameter tuple with \<open>q > 0\<close>) fails at \<open>n = -1\<close>: the draw of
  \<open>n + 1 = 0\<close> values succeeds with the empty array, and the assignment to element 0
  raises.
\<close>

theorem secret_key_gen_empty_counterexample:
  "(0::int) < 10 \<and> randint_outcome 0 10 (- 1 + 1) [] \<and>
   secret_key_gen (10, 10, - 1, 70, 1) [] = Inl IndexError"
  by (simp add: randint_outcome_def secret_key_gen_def randint_def)

subsection \<open>Public key generation\<close>







subsection \<open>Encryption: the message check\<close>

text \<open>
  C7. For every message that is neither 0 nor 1, \<open>encrypt\<close> fails with the
  invalid-message assertion, whatever the parameters, the public key and the random draw
  are (the check comes before the draw and before any arithmetic); for a message 0 or 1
  that error is not raised.
\<close>

theorem encrypt_rejects_invalid_message:
  "(message \<noteq> 0 \<and> message \<noteq> 1 \<longrightarrow>
      encrypt params pk message draw_r = Inl InvalidMessage) \<and>
   (message = 0 \<or> message = 1 \<longrightarrow>
      encrypt params pk message draw_r \<noteq> Inl InvalidMessage)"
  by (auto simp add: encrypt_def InvalidMessage_def randint_def np_dot_def broadcast2_def
      split: prod.splits sum.splits if_splits)

theorem encrypt_rejects_invalid_message_witness:
  "encrypt (10, 10, 1, 1, 1) \<lparr>ncols = 2, rows = [[3, 4]]\<rparr> 2 [1] = Inl InvalidMessage \<and>
   encrypt (10, 10, 1, 1, 1) \<lparr>ncols = 2, rows = [[3, 4]]\<rparr> 1 [1] \<noteq> Inl InvalidMessage"
  using encrypt_rejects_invalid_message
          [of 2 "(10, 10, 1, 1, 1)" "\<lparr>ncols = 2, rows = [[3, 4]]\<rparr>" "[1]"]
        encrypt_rejects_invalid_message
          [of 1 "(10, 10, 1, 1, 1)" "\<lparr>ncols = 2, rows = [[3, 4]]\<rparr>" "[1]"]
  by simp

subsection \<open>Encryption: the ciphertext\<close>




subsection \<open>Decryption\<close>

text \<open>
  C8 (amended). \<open>decrypt\<close> has no length check of its own; the elementwise product
  raises exactly when the two lengths differ and neither of them is 1. So for every
  ciphertext whose length differs from the secret key's length, with neither length equal
  to 1, \<open>decrypt\<close> fails with the array library's shape error. For matching lengths (and
  whenever one of the two vectors has length 1, which is broadcast) it returns a value if
  the modulus \<open>q\<close> fits 64 bits, and otherwise the reduction modulo \<open>q\<close> raises an
  overflow error.
\<close>

theorem decrypt_dimension_check:
  "(length ciphertext \<noteq> length sk \<and> length ciphertext \<noteq> 1 \<and> length sk \<noteq> 1
      \<longrightarrow> decrypt (q, d, n, N, chi) sk ciphertext = Inl ValueError) \<and>
   ((length ciphertext = length sk \<or> length ciphertext = 1 \<or> length sk = 1)
      \<and> - (2 ^ 63) \<le> q \<and> q < 2 ^ 63
      \<longrightarrow> (\<exists>b. decrypt (q, d, n, N, chi) sk ciphertext = Inr b)) \<and>
   ((length ciphertext = length sk \<or> length ciphertext = 1 \<or> length sk = 1)
      \<and> (q < - (2 ^ 63) \<or> 2 ^ 63 \<le> q)
      \<longrightarrow> decrypt (q, d, n, N, chi) sk ciphertext = Inl OverflowError)"
  by (auto simp add: decrypt_def broadcast2_def in64_def)

theorem decrypt_dimension_check_witness:
  "decrypt (10, 10, 2, 7, 1) [1, 4, 5] [3, 8] = Inl ValueError \<and>
   (\<exists>b. decrypt (10, 10, 2, 7, 1) [1, 4, 5] [3, 8, 2] = Inr b) \<and>
   decrypt (2 ^ 63, 10, 2, 7, 1) [1, 4, 5] [3, 8, 2] = Inl OverflowError"
  using decrypt_dimension_check [of "[3, 8]" "[1, 4, 5]" 10 10 2 7 1]
        decrypt_dimension_check [of "[3, 8, 2]" "[1, 4, 5]" 10 10 2 7 1]
        decrypt_dimension_check [of "[3, 8, 2]" "[1, 4, 5]" "2 ^ 63" 10 2 7 1]
  by simp

text \<open>
  C8 as stated fails for a ciphertext of length 1: with \<open>n = 1\<close> the secret key
  \<open>[1, 1]\<close> has length \<open>n + 1 = 2\<close>, the ciphertext \<open>[1]\<close> has length 1, and
  \<open>decrypt\<close> returns 0 instead of raising.
\<close>

theorem decrypt_broadcast_counterexample:
  "length [1 :: int] \<noteq> length [1, 1 :: int] \<and>
   decrypt (10, 10, 1, 7, 1) [1, 1] [1] = Inr 0"
  by code_simp

text \<open>
  C9 (amended). For every parameter tuple with \<open>0 < q < 2 ^ 63\<close> and every two integer
  vectors of equal length (any entries, negative or outside \<open>[0, q)\<close> included),
  \<open>decrypt\<close> returns 0 or 1.
\<close>

theorem decrypt_bit:
  "0 < q \<Longrightarrow> q < 2 ^ 63 \<Longrightarrow> length ciphertext = length sk \<Longrightarrow>
     \<exists>b. decrypt (q, d, n, N, chi) sk ciphertext = Inr b \<and> (b = 0 \<or> b = 1)"
  by (auto simp add: decrypt_def broadcast2_def np_mod_def in64_def)

theorem decrypt_bit_witness:
  "(0::int) < 10 \<and> (10::int) < 2 ^ 63 \<and> length [- 7, 25 :: int] = length [1, - 3 :: int] \<and>
   decrypt (10, 10, 1, 7, 1) [1, - 3] [- 7, 25] = Inr 0"
  using decrypt_bit [of 10 "[- 7, 25]" "[1, - 3]" 10 1 7 1]
  by (simp add: decrypt_def broadcast2_def np_mod_def in64_def add64_def mul64_def wrap64_def)

text \<open>
  C9 as stated (every \<open>q > 0\<close>) fails at \<open>q = 2 ^ 63\<close>: the modulus does not fit 64
  bits, and reducing the 64-bit sum modulo \<open>q\<close> raises instead of returning a bit.
\<close>

theorem decrypt_large_modulus_counterexample:
  "(0::int) < 9223372036854775808 \<and> length [1 :: int] = length [1 :: int] \<and>
   decrypt (9223372036854775808, 10, 0, 1, 1) [1] [1] = Inl OverflowError"
  by (simp add: decrypt_def broadcast2_def in64_def)

text \<open>
  C10. \<open>decrypt\<close> takes no random draw: it is a function of the parameters, the secret
  key and the ciphertext alone. Of the five parameters only \<open>q\<close> matters: changing
  \<open>d\<close>, \<open>n\<close>, \<open>N\<close> or \<open>chi\<close> leaves the result (value or error) unchanged.
\<close>

theorem decrypt_depends_on_q_only:
  "decrypt (q, d, n, N, chi) sk ciphertext = decrypt (q, d', n', N', chi') sk ciphertext"
  by (simp add: decrypt_def)

subsection \<open>Round trip\<close>

text \<open>
  C1. Under the fixed parameters \<open>q = 10\<close>, \<open>n = 10\<close>, \<open>N = 70\<close>: for every message bit,
  every draw of the secret key, every draw of \<open>A\<close> and \<open>e\<close> in \<open>public_key_gen\<close> and
  every binary vector \<open>r\<close> drawn by \<open>encrypt\<close>, all four stages return, and decrypting
  the ciphertext gives the message back.
\<close>

theorem round_trip:
  assumes "randint_outcome 0 10 (10 + 1) draw_sk"
    and "randint_outcome 0 10 (70 * 10) draw_A"
    and "randint_outcome 0 10 70 draw_e"
    and "randint_outcome 0 2 70 draw_r"
    and "message = 0 \<or> message = 1"
  shows "\<exists>sk pk c. secret_key_gen (10, d, 10, 70, chi) draw_sk = Inr sk \<and>
           public_key_gen (10, d, 10, 70, chi) sk draw_A draw_e = Inr pk \<and>
           encrypt (10, d, 10, 70, chi) pk message draw_r = Inr c \<and>
           decrypt (10, d, 10, 70, chi) sk c = Inr message"
  using assms by (intro round_trip_even_modulus) simp_all

theorem round_trip_witness:
  "randint_outcome 0 10 (10 + 1) (replicate 11 7) \<and>
   randint_outcome 0 10 (70 * 10) (replicate 700 9) \<and>
   randint_outcome 0 10 70 (replicate 70 8) \<and>
   randint_outcome 0 2 70 (replicate 70 1) \<and>
   (\<exists>sk pk c. secret_key_gen (10, 10, 10, 70, 1) (replicate 11 7) = Inr sk \<and>
           public_key_gen (10, 10, 10, 70, 1) sk (replicate 700 9) (replicate 70 8) = Inr pk \<and>
           encrypt (10, 10, 10, 70, 1) pk 1 (replicate 70 1) = Inr c \<and>
           decrypt (10, 10, 10, 70, 1) sk c = Inr 1)"
  using round_trip [of "replicate 11 7" "replicate 700 9" "replicate 70 8" "replicate 70 1" 1 10 1]
  by (simp add: randint_outcome_def randint_def list_all_iff)

end
